theory Spec2Isabelle
  imports Complex_Main "HOL-Library.Sublist"
begin

section \<open>Numbers of the component\<close>

text \<open>
  The component \<^verbatim>\<open>CnnHyperparamPlayground\<close> keeps its hyperparameters in React state
  as JavaScript numbers that are only ever set from \<^verbatim>\<open>parseInt\<close> of a range slider or
  from the preset table, so they are integers. They are modelled as \<^typ>\<open>int\<close>; the
  results of \<^verbatim>\<open>/\<close> are modelled as exact rationals (\<^typ>\<open>rat\<close>) and \<^verbatim>\<open>Math.floor\<close> as
  \<^const>\<open>floor\<close>. Doubles represent every value that occurs for such inputs exactly,
  except the quotients, whose rounding does not change the floor for operands of slider
  size.
\<close>

definition js_div :: "int \<Rightarrow> int \<Rightarrow> rat" where
  \<comment> \<open>\<^verbatim>\<open>a / b\<close> on integer operands, for \<open>b \<noteq> 0\<close> (the component never divides by zero
      where the result is used: stride is at least 1, and the scan divides by a positive
      width).\<close>
  "js_div a b = of_int a / of_int b"

definition js_rem :: "int \<Rightarrow> int \<Rightarrow> int" where
  \<comment> \<open>\<^verbatim>\<open>a % b\<close> for \<open>b \<noteq> 0\<close>: the remainder of the truncating division, which has the
      sign of the dividend. For \<open>b = 0\<close> JavaScript gives NaN; the callers below guard
      that case themselves.\<close>
  "js_rem a b = sgn a * (\<bar>a\<bar> mod \<bar>b\<bar>)"

definition math_round :: "rat \<Rightarrow> int" where
  \<comment> \<open>\<^verbatim>\<open>Math.round\<close>: nearest integer, halves towards positive infinity.\<close>
  "math_round q = \<lfloor>q + 1 / 2\<rfloor>"

section \<open>Hyperparameters and derived geometry\<close>

record params =
  inW :: int
  inH :: int
  kernel :: int
  stride :: int
  padding :: int
  dilation :: int

definition effKernel :: "params \<Rightarrow> int" where
  "effKernel P = (kernel P - 1) * dilation P + 1"

definition outW :: "params \<Rightarrow> int" where
  "outW P = \<lfloor>js_div (inW P + 2 * padding P - effKernel P) (stride P) + 1\<rfloor>"

definition outH :: "params \<Rightarrow> int" where
  "outH P = \<lfloor>js_div (inH P + 2 * padding P - effKernel P) (stride P) + 1\<rfloor>"

definition padW :: "params \<Rightarrow> int" where
  "padW P = inW P + 2 * padding P"

definition padH :: "params \<Rightarrow> int" where
  "padH P = inH P + 2 * padding P"

record rf =
  startX :: int
  startY :: int
  endX :: int
  endY :: int

definition rfBounds :: "params \<Rightarrow> int \<Rightarrow> int \<Rightarrow> rf" where
  "rfBounds P ox oy =
     (let sx = ox * stride P;
          sy = oy * stride P;
          ex = sx + effKernel P - 1;
          ey = sy + effKernel P - 1
      in \<lparr>startX = sx, startY = sy, endX = ex, endY = ey\<rparr>)"

definition selRF :: "params \<Rightarrow> (int \<times> int) option \<Rightarrow> rf option" where
  \<comment> \<open>The receptive field of the selected output cell; a selection is \<open>(x, y)\<close>.\<close>
  "selRF P sel = (case sel of None \<Rightarrow> None | Some (x, y) \<Rightarrow> Some (rfBounds P x y))"

definition inIsInRF :: "params \<Rightarrow> (int \<times> int) option \<Rightarrow> int \<Rightarrow> int \<Rightarrow> bool" where
  "inIsInRF P sel ix iy =
     (case selRF P sel of None \<Rightarrow> False
      | Some r \<Rightarrow> ix \<ge> startX r \<and> ix \<le> endX r \<and> iy \<ge> startY r \<and> iy \<le> endY r)"

definition kernelCenter :: "rf \<Rightarrow> int \<times> int" where
  \<comment> \<open>The two constants \<^verbatim>\<open>centerX\<close>, \<^verbatim>\<open>centerY\<close> of \<^verbatim>\<open>isKernelCenter\<close>.\<close>
  "kernelCenter r =
     (\<lfloor>js_div (startX r + endX r) 2\<rfloor>, \<lfloor>js_div (startY r + endY r) 2\<rfloor>)"

definition isKernelCenter :: "params \<Rightarrow> (int \<times> int) option \<Rightarrow> int \<Rightarrow> int \<Rightarrow> bool" where
  "isKernelCenter P sel ix iy =
     (case selRF P sel of None \<Rightarrow> False
      | Some r \<Rightarrow> ix = fst (kernelCenter r) \<and> iy = snd (kernelCenter r))"

definition isInDilatedKernel :: "params \<Rightarrow> (int \<times> int) option \<Rightarrow> int \<Rightarrow> int \<Rightarrow> bool" where
  \<comment> \<open>\<^verbatim>\<open>relX % dilation === 0\<close> is false when \<^verbatim>\<open>dilation\<close> is 0, the remainder being NaN.\<close>
  "isInDilatedKernel P sel ix iy =
     (case selRF P sel of None \<Rightarrow> False
      | Some r \<Rightarrow>
          (let relX = ix - startX r; relY = iy - startY r
           in if relX < 0 \<or> relX \<ge> effKernel P \<or> relY < 0 \<or> relY \<ge> effKernel P then False
              else dilation P \<noteq> 0 \<and> js_rem relX (dilation P) = 0 \<and> js_rem relY (dilation P) = 0))"

section \<open>Parameter validation\<close>

definition digit_char :: "nat \<Rightarrow> char" where
  "digit_char d = ''0123456789'' ! d"

fun nat_str :: "nat \<Rightarrow> string" where
  "nat_str n = (if n < 10 then [digit_char n] else nat_str (n div 10) @ [digit_char (n mod 10)])"

definition num_str :: "int \<Rightarrow> string" where
  \<comment> \<open>What a template literal prints for an integer-valued number.\<close>
  "num_str i = (if i < 0 then ''-'' @ nat_str (nat (- i)) else nat_str (nat i))"

definition width_issue :: "params \<Rightarrow> string" where
  "width_issue P =
     ''Effective kernel ('' @ num_str (effKernel P) @ '') larger than padded input width (''
       @ num_str (inW P + 2 * padding P) @ '')''"

definition height_issue :: "params \<Rightarrow> string" where
  "height_issue P =
     ''Effective kernel ('' @ num_str (effKernel P) @ '') larger than padded input height (''
       @ num_str (inH P + 2 * padding P) @ '')''"

definition no_output_issue :: string where
  "no_output_issue = ''Invalid parameters produce no output''"

definition validateParams :: "params \<Rightarrow> string list" where
  \<comment> \<open>\<^verbatim>\<open>issues.push\<close> appends at the end.\<close>
  "validateParams P =
     (let issues = [];
          issues = (if effKernel P > inW P + 2 * padding P
                    then issues @ [width_issue P] else issues);
          issues = (if effKernel P > inH P + 2 * padding P
                    then issues @ [height_issue P] else issues);
          issues = (if outW P \<le> 0 \<or> outH P \<le> 0
                    then issues @ [no_output_issue] else issues)
      in issues)"

section \<open>Convolution\<close>

datatype kernel_type = edge_detect | blur | sharpen | identity | emboss

fun weights :: "kernel_type \<Rightarrow> rat list list" where
  "weights edge_detect = [[-1, -1, -1], [-1, 8, -1], [-1, -1, -1]]"
| "weights blur = [[1/9, 1/9, 1/9], [1/9, 1/9, 1/9], [1/9, 1/9, 1/9]]"
| "weights sharpen = [[0, -1, 0], [-1, 5, -1], [0, -1, 0]]"
| "weights identity = [[0, 0, 0], [0, 1, 0], [0, 0, 0]]"
| "weights emboss = [[-2, -1, 0], [-1, 1, 1], [0, 1, 2]]"

text \<open>
  \<^verbatim>\<open>inputData\<close> is the grid built by \<^verbatim>\<open>generateInputData\<close>: \<^verbatim>\<open>inH\<close> rows of \<^verbatim>\<open>inW\<close>
  samples, each the result of \<^verbatim>\<open>Math.round\<close> clamped to 0..255, hence an integer. The
  generator itself works with square roots of doubles and is not modelled; the grid is a
  parameter. Reading a missing row throws a \<^verbatim>\<open>TypeError\<close>; reading a missing column of
  an existing row gives \<^verbatim>\<open>undefined\<close> (here \<open>None\<close>), which turns the sum into NaN (again
  \<open>None\<close>) once it is multiplied and added.
\<close>

datatype js_error = TypeError

definition grid_shape :: "params \<Rightarrow> int list list \<Rightarrow> bool" where
  \<comment> \<open>The shape \<^verbatim>\<open>generateInputData\<close> produces for the current parameters.\<close>
  "grid_shape P inputData =
     (length inputData = nat (inH P) \<and> list_all (\<lambda>row. length row = nat (inW P)) inputData)"

definition inputValue :: "params \<Rightarrow> int list list \<Rightarrow> int \<Rightarrow> int \<Rightarrow> js_error + int option" where
  "inputValue P inputData inputY inputX =
     (if inputY \<ge> padding P \<and> inputY < padding P + inH P \<and>
         inputX \<ge> padding P \<and> inputX < padding P + inW P
      then (let r = nat (inputY - padding P); c = nat (inputX - padding P)
            in if r < length inputData
               then (if c < length (inputData ! r) then Inr (Some (inputData ! r ! c))
                     else Inr None)
               else Inl TypeError)
      else Inr (Some 0))"

definition accumulate ::
  "rat list list \<Rightarrow> nat \<Rightarrow> nat \<Rightarrow> int option \<Rightarrow> rat option \<Rightarrow> rat option" where
  \<comment> \<open>The guarded \<^verbatim>\<open>sum += inputValue * kernelWeights[ky][kx]\<close>; \<open>acc\<close> is \<^verbatim>\<open>sum\<close>.\<close>
  "accumulate kernelWeights ky kx v acc =
     (if ky < length kernelWeights \<and> kx < length (kernelWeights ! 0)
      then (case (acc, v) of
              (Some s, Some x) \<Rightarrow>
                (if kx < length (kernelWeights ! ky)
                 then Some (s + of_int x * kernelWeights ! ky ! kx) else None)
            | _ \<Rightarrow> None)
      else acc)"

definition tap ::
  "params \<Rightarrow> rat list list \<Rightarrow> int list list \<Rightarrow> rf \<Rightarrow> nat \<Rightarrow> nat \<Rightarrow> rat option \<Rightarrow>
     js_error + rat option" where
  \<comment> \<open>The body of the innermost loop.\<close>
  "tap P kernelWeights inputData r ky kx acc =
     (let inputY = startY r + int ky * dilation P;
          inputX = startX r + int kx * dilation P
      in case inputValue P inputData inputY inputX of
           Inl e \<Rightarrow> Inl e
         | Inr v \<Rightarrow> Inr (accumulate kernelWeights ky kx v acc))"

fun foldE :: "('a \<Rightarrow> 's \<Rightarrow> 'e + 's) \<Rightarrow> 'a list \<Rightarrow> 's \<Rightarrow> 'e + 's" where
  "foldE f [] s = Inr s"
| "foldE f (x # xs) s = (case f x s of Inl e \<Rightarrow> Inl e | Inr s' \<Rightarrow> foldE f xs s')"

fun mapE :: "('a \<Rightarrow> 'e + 'b) \<Rightarrow> 'a list \<Rightarrow> 'e + 'b list" where
  "mapE f [] = Inr []"
| "mapE f (x # xs) =
     (case f x of Inl e \<Rightarrow> Inl e
      | Inr y \<Rightarrow> (case mapE f xs of Inl e \<Rightarrow> Inl e | Inr ys \<Rightarrow> Inr (y # ys)))"

definition cellSum ::
  "params \<Rightarrow> rat list list \<Rightarrow> int list list \<Rightarrow> nat \<Rightarrow> nat \<Rightarrow> js_error + rat option" where
  \<comment> \<open>The two kernel loops for output cell \<open>(ox, oy)\<close>, starting from \<^verbatim>\<open>sum = 0\<close>.\<close>
  "cellSum P kernelWeights inputData ox oy =
     (let r = rfBounds P (int ox) (int oy)
      in foldE (\<lambda>ky. foldE (\<lambda>kx. tap P kernelWeights inputData r ky kx) [0..<nat (kernel P)])
           [0..<nat (kernel P)] (Some 0))"

definition outputCell ::
  "params \<Rightarrow> rat list list \<Rightarrow> int list list \<Rightarrow> nat \<Rightarrow> nat \<Rightarrow> js_error + int option" where
  \<comment> \<open>\<^verbatim>\<open>Math.round(sum)\<close>; the rounding of NaN is NaN.\<close>
  "outputCell P kernelWeights inputData ox oy =
     (case cellSum P kernelWeights inputData ox oy of
        Inl e \<Rightarrow> Inl e
      | Inr s \<Rightarrow> Inr (map_option math_round s))"

definition computeConvolution ::
  "params \<Rightarrow> rat list list \<Rightarrow> int list list \<Rightarrow> js_error + int option list list" where
  "computeConvolution P kernelWeights inputData =
     mapE (\<lambda>oy. mapE (\<lambda>ox. outputCell P kernelWeights inputData ox oy) [0..<nat (outW P)])
       [0..<nat (outH P)]"

definition sample :: "params \<Rightarrow> int list list \<Rightarrow> int \<Rightarrow> int \<Rightarrow> int" where
  \<comment> \<open>The zero-padded sample at a padded-input coordinate, for a grid of the right shape.\<close>
  "sample P inputData inputY inputX =
     (if padding P \<le> inputY \<and> inputY < padding P + inH P \<and>
         padding P \<le> inputX \<and> inputX < padding P + inW P
      then inputData ! nat (inputY - padding P) ! nat (inputX - padding P) else 0)"

definition contribution ::
  "params \<Rightarrow> rat list list \<Rightarrow> int list list \<Rightarrow> rf \<Rightarrow> nat \<Rightarrow> nat \<Rightarrow> rat" where
  \<comment> \<open>The product \<^verbatim>\<open>inputValue * kernelWeights[ky][kx]\<close> of tap \<open>(ky, kx)\<close>.\<close>
  "contribution P W D r ky kx =
     of_int (sample P D (startY r + int ky * dilation P) (startX r + int kx * dilation P))
       * W ! ky ! kx"

section \<open>Scan controller\<close>

text \<open>
  The state of the component that the two effects read and write: the parameters, the
  animation switches, the selected output cell, and the interval created by the
  animation effect with the variables its callback closes over (\<^verbatim>\<open>ix\<close>, \<^verbatim>\<open>outW\<close>,
  \<^verbatim>\<open>total\<close>). A render together with the effects it triggers is one step: the effects
  run in the order of their declaration, the clamp effect first, and of two calls of
  \<^verbatim>\<open>setSelectedOut\<close> in one step the later one decides the next state. The earlier
  variant of the component has the same two effects; its animation effect does not
  depend on \<^verbatim>\<open>jumpAnimation\<close> and \<^verbatim>\<open>stride\<close>, so there a change of these alone restarts
  no scan.
\<close>

record interval =
  ix :: int
  tOutW :: int
  total :: int

record scan =
  prm :: params
  animate :: bool
  animSpeed :: int
  jumpAnimation :: bool
  selectedOut :: "(int \<times> int) option"
  timer :: "interval option"

definition clampSelected :: "int \<Rightarrow> int \<Rightarrow> (int \<times> int) option \<Rightarrow> (int \<times> int) option" where
  \<comment> \<open>The effect with dependencies \<^verbatim>\<open>[outW, outH]\<close>; the result is the new selection.\<close>
  "clampSelected w h sel =
     (case sel of None \<Rightarrow> None
      | Some (x, y) \<Rightarrow>
          if x \<ge> w \<or> y \<ge> h
          then (if w > 0 \<and> h > 0 then Some (min x (max 0 (w - 1)), min y (max 0 (h - 1)))
                else None)
          else Some (x, y))"

definition animEffect :: "scan \<Rightarrow> scan" where
  \<comment> \<open>The animation effect: the cleanup of the previous run clears its interval, then the
      body runs.\<close>
  "animEffect s =
     (let w = outW (prm s); h = outH (prm s)
      in if \<not> animate s \<or> w \<le> 0 \<or> h \<le> 0 then s\<lparr>timer := None\<rparr>
         else s\<lparr>selectedOut := Some (0, 0),
                timer := Some \<lparr>ix = 0, tOutW = w, total = w * h\<rparr>\<rparr>)"

definition tick :: "scan \<Rightarrow> scan" where
  \<comment> \<open>One firing of the interval callback; nothing fires without an interval.\<close>
  "tick s =
     (case timer s of None \<Rightarrow> s
      | Some t \<Rightarrow>
          (let y = \<lfloor>js_div (ix t) (tOutW t)\<rfloor>;
               x = js_rem (ix t) (tOutW t)
           in s\<lparr>selectedOut := Some (x, y),
                timer := Some (t\<lparr>ix := js_rem (ix t + 1) (total t)\<rparr>)\<rparr>))"

datatype event =
  SetParams params
| ToggleAnimate
| SetAnimSpeed int
| SetJumpAnimation bool
| Click int int
| Tick

fun step :: "event \<Rightarrow> scan \<Rightarrow> scan" where
  "step (SetParams P') s =
     (let s1 = s\<lparr>prm := P'\<rparr>;
          dims = (outW P' \<noteq> outW (prm s) \<or> outH P' \<noteq> outH (prm s));
          s2 = (if dims then s1\<lparr>selectedOut := clampSelected (outW P') (outH P') (selectedOut s)\<rparr>
                else s1)
      in if dims \<or> stride P' \<noteq> stride (prm s) then animEffect s2 else s2)"
| "step ToggleAnimate s =
     (if outW (prm s) \<le> 0 \<or> outH (prm s) \<le> 0 then s
      else animEffect (s\<lparr>animate := \<not> animate s\<rparr>))"
| "step (SetAnimSpeed v) s =
     (if v = animSpeed s then s else animEffect (s\<lparr>animSpeed := v\<rparr>))"
| "step (SetJumpAnimation b) s =
     (if b = jumpAnimation s then s else animEffect (s\<lparr>jumpAnimation := b\<rparr>))"
| "step (Click ox oy) s =
     (if 0 < outW (prm s) \<and> 0 < outH (prm s) \<and> 0 \<le> ox \<and> ox < outW (prm s) \<and>
         0 \<le> oy \<and> oy < outH (prm s)
      then s\<lparr>selectedOut := Some (ox, oy)\<rparr> else s)"
| "step Tick s = tick s"

definition run :: "event list \<Rightarrow> scan \<Rightarrow> scan" where
  "run evs s = fold step evs s"

definition initParams :: params where
  "initParams = \<lparr>inW = 12, inH = 12, kernel = 3, stride = 1, padding = 1, dilation = 1\<rparr>"

definition initScan :: scan where
  \<comment> \<open>The \<^verbatim>\<open>useState\<close> defaults; on mount both effects run and change nothing.\<close>
  "initScan = \<lparr>prm = initParams, animate = False, animSpeed = 350, jumpAnimation = True,
               selectedOut = Some (0, 0), timer = None\<rparr>"



section \<open>Properties of the geometry\<close>

lemma floor_js_div: "\<lfloor>js_div a b\<rfloor> = a div b"
  by (simp add: js_div_def floor_divide_of_int_eq)

lemma floor_js_div_add1: "\<lfloor>js_div a b + 1\<rfloor> = a div b + 1"
proof -
  have "\<lfloor>js_div a b + 1\<rfloor> = \<lfloor>js_div a b\<rfloor> + 1" by linarith
  then show ?thesis by (simp add: floor_js_div)
qed

lemma outW_div: "outW P = (inW P + 2 * padding P - effKernel P) div stride P + 1"
  by (simp add: outW_def floor_js_div_add1)

lemma outH_div: "outH P = (inH P + 2 * padding P - effKernel P) div stride P + 1"
  by (simp add: outH_def floor_js_div_add1)

lemma js_rem_nonneg: "0 \<le> a \<Longrightarrow> 0 < b \<Longrightarrow> js_rem a b = a mod b"
  by (cases "a = 0") (simp_all add: js_rem_def)


lemma rfBounds_simps:
  "startX (rfBounds P ox oy) = ox * stride P"
  "startY (rfBounds P ox oy) = oy * stride P"
  "endX (rfBounds P ox oy) = ox * stride P + effKernel P - 1"
  "endY (rfBounds P ox oy) = oy * stride P + effKernel P - 1"
  by (simp_all add: rfBounds_def Let_def)

lemma kernelCenter_rfBounds:
  assumes "odd (kernel P)"
  shows "kernelCenter (rfBounds P ox oy) =
           (ox * stride P + (kernel P - 1) div 2 * dilation P,
            oy * stride P + (kernel P - 1) div 2 * dilation P)"
proof -
  from assms obtain m where m: "kernel P = 2 * m + 1" by (auto elim: oddE)
  have "(2 * a + 2 * m * d) div 2 = a + m * d" for a d :: int
    by (metis distrib_left mult.assoc nonzero_mult_div_cancel_left zero_neq_numeral)
  then show ?thesis
    by (simp add: kernelCenter_def rfBounds_simps floor_js_div effKernel_def m algebra_simps)
qed

section \<open>Properties of the validation\<close>

lemma validateParams_eq:
  "validateParams P =
     (if effKernel P > inW P + 2 * padding P then [width_issue P] else []) @
     (if effKernel P > inH P + 2 * padding P then [height_issue P] else []) @
     (if outW P \<le> 0 \<or> outH P \<le> 0 then [no_output_issue] else [])"
  by (simp add: validateParams_def Let_def)

lemma issues_distinct:
  "width_issue P \<noteq> height_issue P" "width_issue P \<noteq> no_output_issue"
  "height_issue P \<noteq> no_output_issue"
  by (simp_all add: width_issue_def height_issue_def no_output_issue_def)

lemma num_str_digit: "0 \<le> i \<Longrightarrow> i < 10 \<Longrightarrow> num_str i = [digit_char (nat i)]"
  by (simp add: num_str_def)

lemma outW_nonpos: "1 \<le> stride P \<Longrightarrow> effKernel P > inW P + 2 * padding P \<Longrightarrow> outW P \<le> 0"
proof -
  assume s: "1 \<le> stride P" and "effKernel P > inW P + 2 * padding P"
  then have "inW P + 2 * padding P - effKernel P < 0" by simp
  with s have "(inW P + 2 * padding P - effKernel P) div stride P < 0"
    by (simp add: div_neg_pos_less0)
  then show ?thesis by (simp add: outW_div)
qed

lemma outH_nonpos: "1 \<le> stride P \<Longrightarrow> effKernel P > inH P + 2 * padding P \<Longrightarrow> outH P \<le> 0"
proof -
  assume s: "1 \<le> stride P" and "effKernel P > inH P + 2 * padding P"
  then have "inH P + 2 * padding P - effKernel P < 0" by simp
  with s have "(inH P + 2 * padding P - effKernel P) div stride P < 0"
    by (simp add: div_neg_pos_less0)
  then show ?thesis by (simp add: outH_div)
qed

section \<open>Output dimensions\<close>

text \<open>
  Claim C3. For every stride of at least 1 (and every input size, padding and effective
  kernel, whatever the sign of the numerator), the output width and height the component
  computes are the mathematical floor of
  \<open>(inputSize + 2 * padding - effectiveKernel) / stride\<close> plus 1: the quotient is rounded
  towards negative infinity, so that the result minus 1, times the stride, is the largest
  multiple of the stride not above the numerator. In particular, an input width of 12
  with padding 1, kernel size 3, dilation 1 and stride 1 has effective kernel size 3 and
  output width 12.
\<close>

theorem output_dimension_floor:
  "(1 \<le> stride P \<longrightarrow>
      outW P = \<lfloor>(of_int (inW P + 2 * padding P - effKernel P) :: rat) / of_int (stride P)\<rfloor> + 1 \<and>
      outH P = \<lfloor>(of_int (inH P + 2 * padding P - effKernel P) :: rat) / of_int (stride P)\<rfloor> + 1 \<and>
      (outW P - 1) * stride P \<le> inW P + 2 * padding P - effKernel P \<and>
      inW P + 2 * padding P - effKernel P < outW P * stride P \<and>
      (outH P - 1) * stride P \<le> inH P + 2 * padding P - effKernel P \<and>
      inH P + 2 * padding P - effKernel P < outH P * stride P) \<and>
   (inW P = 12 \<and> padding P = 1 \<and> kernel P = 3 \<and> dilation P = 1 \<and> stride P = 1 \<longrightarrow>
      effKernel P = 3 \<and> outW P = 12)"
proof -
  have fl: "\<lfloor>(of_int a :: rat) / of_int b\<rfloor> = a div b" for a b :: int
    by (simp add: floor_divide_of_int_eq)
  have lo: "(a div b + 1 - 1) * b \<le> a" if "1 \<le> b" for a b :: int
    using that by (simp add: minus_mod_eq_div_mult [symmetric])
  have hi: "a < (a div b + 1) * b" if "1 \<le> b" for a b :: int
  proof -
    have m: "a mod b < b" using that by simp
    have e: "a div b * b + a mod b = a" by (rule div_mult_mod_eq)
    have "(a div b + 1) * b = a div b * b + b" by (simp add: algebra_simps)
    with m e show ?thesis by linarith
  qed
  have part1: "1 \<le> stride P \<longrightarrow>
      outW P = \<lfloor>(of_int (inW P + 2 * padding P - effKernel P) :: rat) / of_int (stride P)\<rfloor> + 1 \<and>
      outH P = \<lfloor>(of_int (inH P + 2 * padding P - effKernel P) :: rat) / of_int (stride P)\<rfloor> + 1 \<and>
      (outW P - 1) * stride P \<le> inW P + 2 * padding P - effKernel P \<and>
      inW P + 2 * padding P - effKernel P < outW P * stride P \<and>
      (outH P - 1) * stride P \<le> inH P + 2 * padding P - effKernel P \<and>
      inH P + 2 * padding P - effKernel P < outH P * stride P"
    unfolding fl outW_div outH_div using lo [of "stride P"] hi [of "stride P"] by blast
  have part2: "inW P = 12 \<and> padding P = 1 \<and> kernel P = 3 \<and> dilation P = 1 \<and> stride P = 1 \<longrightarrow>
      effKernel P = 3 \<and> outW P = 12"
    by (simp add: outW_div effKernel_def)
  from part1 part2 show ?thesis by (rule conjI)
qed

text \<open>
  The theorem at the default parameters, and at parameters with the negative numerator
  \<open>4 - 7 = -3\<close> and stride 2, where the floor is \<open>-2\<close> and truncation would give \<open>-1\<close>.
\<close>

theorem output_dimension_floor_witness:
  "outW \<lparr>inW = 12, inH = 12, kernel = 3, stride = 1, padding = 1, dilation = 1\<rparr> = 12 \<and>
   effKernel \<lparr>inW = 12, inH = 12, kernel = 3, stride = 1, padding = 1, dilation = 1\<rparr> = 3 \<and>
   outW \<lparr>inW = 4, inH = 4, kernel = 3, stride = 2, padding = 0, dilation = 3\<rparr> = -1"
  using output_dimension_floor [of "\<lparr>inW = 12, inH = 12, kernel = 3, stride = 1, padding = 1, dilation = 1\<rparr>"]
    output_dimension_floor [of "\<lparr>inW = 4, inH = 4, kernel = 3, stride = 2, padding = 0, dilation = 3\<rparr>"]
  by (simp add: effKernel_def)

section \<open>Kernel center\<close>



text \<open>
  Claim C10. For every odd kernel size of at least 1, every dilation of at least 1 and the
  receptive field of every output cell, the offset of the kernel center from the start of
  the field is \<open>(effectiveKernel - 1) / 2 = ((kernelSize - 1) / 2) * dilation\<close> on each
  axis; it is not negative, it is less than the effective kernel size, and its remainder
  by the dilation is 0. So every cell that \<^verbatim>\<open>isKernelCenter\<close> marks is also marked by
  \<^verbatim>\<open>isInDilatedKernel\<close>.
\<close>

theorem center_is_active_tap:
  assumes "odd (kernel P)" and "1 \<le> kernel P" and "1 \<le> dilation P"
  shows "fst (kernelCenter (rfBounds P ox oy)) - startX (rfBounds P ox oy)
           = (kernel P - 1) div 2 * dilation P \<and>
         snd (kernelCenter (rfBounds P ox oy)) - startY (rfBounds P ox oy)
           = (kernel P - 1) div 2 * dilation P \<and>
         (effKernel P - 1) div 2 = (kernel P - 1) div 2 * dilation P \<and>
         0 \<le> (kernel P - 1) div 2 * dilation P \<and>
         (kernel P - 1) div 2 * dilation P < effKernel P \<and>
         js_rem ((kernel P - 1) div 2 * dilation P) (dilation P) = 0 \<and>
         (isKernelCenter P (Some (ox, oy)) px py \<longrightarrow> isInDilatedKernel P (Some (ox, oy)) px py)"
proof -
  from assms(1) obtain m where m: "kernel P = 2 * m + 1" by (auto elim: oddE)
  from assms(2) m have m0: "0 \<le> m" by simp
  define off where "off = m * dilation P"
  have h: "(kernel P - 1) div 2 = m" by (simp add: m)
  have off0: "0 \<le> off" using m0 assms(3) by (simp add: off_def)
  have e: "effKernel P = 2 * off + 1" by (simp add: effKernel_def m off_def)
  have offlt: "off < effKernel P" using off0 e by simp
  have r: "js_rem off (dilation P) = 0"
    using off0 assms(3) by (simp add: js_rem_nonneg off_def)
  have c: "kernelCenter (rfBounds P ox oy) = (ox * stride P + off, oy * stride P + off)"
    using kernelCenter_rfBounds [OF assms(1), of ox oy] by (simp add: h off_def)
  have imp: "isInDilatedKernel P (Some (ox, oy)) px py" if "isKernelCenter P (Some (ox, oy)) px py"
  proof -
    from that have "px = ox * stride P + off" "py = oy * stride P + off"
      by (simp_all add: isKernelCenter_def selRF_def c)
    then show ?thesis
      using off0 offlt r assms(3)
      by (simp add: isInDilatedKernel_def selRF_def rfBounds_simps Let_def)
  qed
  have e2: "(effKernel P - 1) div 2 = off" by (simp add: e)
  show ?thesis
    using off0 offlt r imp by (simp add: c rfBounds_simps h e2 off_def [symmetric])
qed

text \<open>The theorem for a 5 by 5 kernel with stride 2 and dilation 3, at output cell \<open>(1, 2)\<close>.\<close>

theorem center_is_active_tap_witness:
  "isKernelCenter \<lparr>inW = 12, inH = 12, kernel = 5, stride = 2, padding = 2, dilation = 3\<rparr>
      (Some (1, 2)) 8 10 \<and>
   isInDilatedKernel \<lparr>inW = 12, inH = 12, kernel = 5, stride = 2, padding = 2, dilation = 3\<rparr>
      (Some (1, 2)) 8 10"
  using center_is_active_tap
    [of "\<lparr>inW = 12, inH = 12, kernel = 5, stride = 2, padding = 2, dilation = 3\<rparr>" 1 2 8 10]
  by (simp add: isKernelCenter_def selRF_def kernelCenter_def rfBounds_def effKernel_def floor_js_div)

section \<open>Validation\<close>

text \<open>
  Claim C6. \<^verbatim>\<open>validateParams\<close> is a total function of the parameters alone (it has no
  failing branch) and returns its diagnostics in a fixed order: first, when the effective
  kernel exceeds the padded input width, the entry that names both sizes; then, when it
  exceeds the padded input height, the entry that names those two sizes; last, when an
  output dimension is 0 or negative, the entry whose text ends in
  \<open>parameters produce no output\<close>. In particular, for input width 4, padding 0, kernel
  size 5 and dilation 1 the list starts with the entry for the width, which names 5 and 4.
\<close>

theorem validation_order:
  "validateParams P =
     (if effKernel P > padW P then [width_issue P] else []) @
     (if effKernel P > padH P then [height_issue P] else []) @
     (if outW P \<le> 0 \<or> outH P \<le> 0 then [no_output_issue] else []) \<and>
   width_issue P =
     ''Effective kernel ('' @ num_str (effKernel P) @ '') larger than padded input width (''
       @ num_str (padW P) @ '')'' \<and>
   height_issue P =
     ''Effective kernel ('' @ num_str (effKernel P) @ '') larger than padded input height (''
       @ num_str (padH P) @ '')'' \<and>
   suffix ''parameters produce no output'' no_output_issue \<and>
   (inW P = 4 \<and> padding P = 0 \<and> kernel P = 5 \<and> dilation P = 1 \<longrightarrow>
      hd (validateParams P) = ''Effective kernel (5) larger than padded input width (4)'' \<and>
      ''Effective kernel (5) larger than padded input width (4)'' \<in> set (validateParams P))"
proof -
  have s: "suffix ''parameters produce no output'' no_output_issue"
    unfolding no_output_issue_def by (rule suffixI [of _ "''Invalid ''"]) simp
  have ex: "hd (validateParams P) = ''Effective kernel (5) larger than padded input width (4)'' \<and>
      ''Effective kernel (5) larger than padded input width (4)'' \<in> set (validateParams P)"
    if "inW P = 4 \<and> padding P = 0 \<and> kernel P = 5 \<and> dilation P = 1"
    using that
    by (simp add: validateParams_eq effKernel_def width_issue_def num_str_digit digit_char_def)
  show ?thesis
    using s ex by (simp add: validateParams_eq padW_def padH_def width_issue_def height_issue_def)
qed

text \<open>
  The theorem at two parameter sets: the one of the claim, and one where all three
  diagnostics appear, in this order.
\<close>

theorem validation_order_witness:
  "validateParams \<lparr>inW = 4, inH = 12, kernel = 5, stride = 1, padding = 0, dilation = 1\<rparr> =
     [''Effective kernel (5) larger than padded input width (4)'',
      ''Invalid parameters produce no output''] \<and>
   validateParams \<lparr>inW = 4, inH = 4, kernel = 5, stride = 2, padding = 0, dilation = 3\<rparr> =
     [''Effective kernel (13) larger than padded input width (4)'',
      ''Effective kernel (13) larger than padded input height (4)'',
      ''Invalid parameters produce no output'']"
  using validation_order [of "\<lparr>inW = 4, inH = 12, kernel = 5, stride = 1, padding = 0, dilation = 1\<rparr>"]
    validation_order [of "\<lparr>inW = 4, inH = 4, kernel = 5, stride = 2, padding = 0, dilation = 3\<rparr>"]
  by (simp add: effKernel_def padW_def padH_def outW_div outH_div num_str_def digit_char_def
      no_output_issue_def)

text \<open>
  Claim C9. For every stride of at least 1, a validation list that contains the entry for
  the width (or the one for the height) also contains the no-output entry: an effective
  kernel larger than the padded input size makes the numerator negative, so the floor of
  the quotient is at most \<open>-1\<close> and the output dimension of that axis at most 0.
\<close>

theorem size_issue_implies_no_output:
  assumes "1 \<le> stride P"
  shows "(width_issue P \<in> set (validateParams P) \<longrightarrow> no_output_issue \<in> set (validateParams P)) \<and>
         (height_issue P \<in> set (validateParams P) \<longrightarrow> no_output_issue \<in> set (validateParams P)) \<and>
         (effKernel P > inW P + 2 * padding P \<longrightarrow> outW P \<le> 0) \<and>
         (effKernel P > inH P + 2 * padding P \<longrightarrow> outH P \<le> 0)"
  using outW_nonpos [OF assms] outH_nonpos [OF assms] issues_distinct [of P]
  by (auto simp add: validateParams_eq split: if_splits)

text \<open>The theorem where only the width is too small, and where only the height is.\<close>

theorem size_issue_implies_no_output_witness:
  "width_issue \<lparr>inW = 4, inH = 12, kernel = 5, stride = 1, padding = 0, dilation = 1\<rparr>
     \<in> set (validateParams \<lparr>inW = 4, inH = 12, kernel = 5, stride = 1, padding = 0, dilation = 1\<rparr>) \<and>
   no_output_issue
     \<in> set (validateParams \<lparr>inW = 4, inH = 12, kernel = 5, stride = 1, padding = 0, dilation = 1\<rparr>) \<and>
   height_issue \<lparr>inW = 12, inH = 4, kernel = 5, stride = 3, padding = 0, dilation = 1\<rparr>
     \<in> set (validateParams \<lparr>inW = 12, inH = 4, kernel = 5, stride = 3, padding = 0, dilation = 1\<rparr>) \<and>
   no_output_issue
     \<in> set (validateParams \<lparr>inW = 12, inH = 4, kernel = 5, stride = 3, padding = 0, dilation = 1\<rparr>)"
  using size_issue_implies_no_output [of "\<lparr>inW = 4, inH = 12, kernel = 5, stride = 1, padding = 0, dilation = 1\<rparr>"]
    size_issue_implies_no_output [of "\<lparr>inW = 12, inH = 4, kernel = 5, stride = 3, padding = 0, dilation = 1\<rparr>"]
  by (simp add: validateParams_eq effKernel_def)

section \<open>Kernel taps\<close>

lemma isInDilatedKernel_iff:
  assumes "1 \<le> dilation P"
  shows "isInDilatedKernel P (Some (ox, oy)) px py =
           (0 \<le> px - ox * stride P \<and> px - ox * stride P < effKernel P \<and>
            dilation P dvd (px - ox * stride P) \<and>
            0 \<le> py - oy * stride P \<and> py - oy * stride P < effKernel P \<and>
            dilation P dvd (py - oy * stride P))"
  using assms
  by (auto simp add: isInDilatedKernel_def selRF_def rfBounds_simps Let_def js_rem_nonneg
      mod_eq_0_iff_dvd)

lemma tap_offsets:
  assumes "1 \<le> k" and "1 \<le> d"
  shows "{r::int. 0 \<le> r \<and> r < (k - 1) * d + 1 \<and> d dvd r} = (\<lambda>i. i * d) ` {0..<k}"
proof (intro set_eqI iffI)
  fix r assume "r \<in> {r. 0 \<le> r \<and> r < (k - 1) * d + 1 \<and> d dvd r}"
  then have r: "0 \<le> r" "r \<le> (k - 1) * d" "d dvd r" by auto
  from r(3) obtain i where i: "r = d * i" by (auto simp: dvd_def)
  have "0 \<le> i" using r(1) i assms(2) by (simp add: zero_le_mult_iff)
  moreover have "i \<le> k - 1"
  proof -
    from r(2) i have "i * d \<le> (k - 1) * d" by (simp add: mult.commute)
    then show ?thesis using assms(2) by (simp add: mult_le_cancel_right)
  qed
  ultimately have "i \<in> {0..<k}" by simp
  then show "r \<in> (\<lambda>i. i * d) ` {0..<k}" using i by (auto simp: mult.commute)
next
  fix r assume "r \<in> (\<lambda>i. i * d) ` {0..<k}"
  then have "\<exists>i. r = i * d \<and> 0 \<le> i \<and> i < k" by (simp add: image_iff Bex_def conj_commute)
  then obtain i where i: "r = i * d" "0 \<le> i" "i < k" by blast
  have "i * d \<le> (k - 1) * d" using i(3) assms(2) by (simp add: mult_le_cancel_right)
  then show "r \<in> {r. 0 \<le> r \<and> r < (k - 1) * d + 1 \<and> d dvd r}"
    using i assms(2) by simp
qed

lemma tap_set_image:
  assumes "1 \<le> kernel P" and "1 \<le> dilation P"
  shows "{(px, py). isInDilatedKernel P (Some (ox, oy)) px py} =
           (\<lambda>(i, j). (ox * stride P + i * dilation P, oy * stride P + j * dilation P)) `
             ({0..<kernel P} \<times> {0..<kernel P})"
    (is "?L = ?f ` ?D")
proof -
  let ?A = "{r::int. 0 \<le> r \<and> r < (kernel P - 1) * dilation P + 1 \<and> dilation P dvd r}"
  have A: "?A = (\<lambda>i. i * dilation P) ` {0..<kernel P}"
    by (rule tap_offsets [OF assms])
  have L: "?L = {(px, py). px - ox * stride P \<in> ?A \<and> py - oy * stride P \<in> ?A}"
    by (auto simp add: isInDilatedKernel_iff [OF assms(2)] effKernel_def)
  show ?thesis
  proof (intro set_eqI iffI)
    fix q assume "q \<in> ?L"
    then obtain px py where q: "q = (px, py)" "px - ox * stride P \<in> ?A" "py - oy * stride P \<in> ?A"
      unfolding L by auto
    from q(2) obtain i where i: "i \<in> {0..<kernel P}" "px - ox * stride P = i * dilation P"
      unfolding A by blast
    from q(3) obtain j where j: "j \<in> {0..<kernel P}" "py - oy * stride P = j * dilation P"
      unfolding A by blast
    have "q = ?f (i, j)" using q(1) i(2) j(2) by simp
    moreover have "(i, j) \<in> ?D" using i(1) j(1) by simp
    ultimately show "q \<in> ?f ` ?D" by (rule image_eqI)
  next
    fix q assume "q \<in> ?f ` ?D"
    then obtain i j where ij: "i \<in> {0..<kernel P}" "j \<in> {0..<kernel P}" "q = ?f (i, j)"
      by blast
    have "i * dilation P \<in> ?A" "j * dilation P \<in> ?A" unfolding A using ij(1,2) by blast+
    then show "q \<in> ?L" unfolding L using ij(3) by simp
  qed
qed

text \<open>
  Claim C7. For every kernel size of at least 1, every dilation of at least 1 and the
  receptive field of every output cell, the cells that \<^verbatim>\<open>isInDilatedKernel\<close> marks are
  those whose offsets from the start of the field are, on both axes, not negative, less
  than the effective kernel size \<open>(kernelSize - 1) * dilation + 1\<close>, and divisible by the
  dilation; there are exactly \<open>kernelSize\<^sup>2\<close> of them.
\<close>

theorem kernel_tap_count:
  assumes "1 \<le> kernel P" and "1 \<le> dilation P"
  shows "card {(px, py). isInDilatedKernel P (Some (ox, oy)) px py} = nat (kernel P) ^ 2 \<and>
         isInDilatedKernel P (Some (ox, oy)) px py =
           (0 \<le> px - startX (rfBounds P ox oy) \<and> px - startX (rfBounds P ox oy) < effKernel P \<and>
            dilation P dvd (px - startX (rfBounds P ox oy)) \<and>
            0 \<le> py - startY (rfBounds P ox oy) \<and> py - startY (rfBounds P ox oy) < effKernel P \<and>
            dilation P dvd (py - startY (rfBounds P ox oy)))"
proof -
  let ?f = "\<lambda>(i, j). (ox * stride P + i * dilation P, oy * stride P + j * dilation P)"
  let ?D = "{0..<kernel P} \<times> {0..<kernel P}"
  have inj: "inj_on ?f ?D"
    using assms(2) by (auto simp add: inj_on_def)
  have "card (?f ` ?D) = card ?D" by (rule card_image [OF inj])
  also have "\<dots> = nat (kernel P) * nat (kernel P)" by (simp add: card_cartesian_product)
  finally have "card (?f ` ?D) = nat (kernel P) ^ 2" by (simp add: power2_eq_square)
  then have c: "card {(px, py). isInDilatedKernel P (Some (ox, oy)) px py} = nat (kernel P) ^ 2"
    by (simp only: tap_set_image [OF assms])
  show ?thesis
    using c isInDilatedKernel_iff [OF assms(2), of ox oy px py]
    by (simp only: rfBounds_simps)
qed

text \<open>
  The theorem for a 3 by 3 kernel with stride 2 and dilation 2 at output cell \<open>(1, 2)\<close>:
  nine taps, among them \<open>(4, 8)\<close>, and not \<open>(5, 8)\<close>.
\<close>

theorem kernel_tap_count_witness:
  "card {(px, py). isInDilatedKernel
       \<lparr>inW = 12, inH = 12, kernel = 3, stride = 2, padding = 2, dilation = 2\<rparr> (Some (1, 2)) px py} = 9 \<and>
   isInDilatedKernel \<lparr>inW = 12, inH = 12, kernel = 3, stride = 2, padding = 2, dilation = 2\<rparr>
     (Some (1, 2)) 4 8 \<and>
   \<not> isInDilatedKernel \<lparr>inW = 12, inH = 12, kernel = 3, stride = 2, padding = 2, dilation = 2\<rparr>
     (Some (1, 2)) 5 8"
  using kernel_tap_count
    [of "\<lparr>inW = 12, inH = 12, kernel = 3, stride = 2, padding = 2, dilation = 2\<rparr>" 1 2 4 8]
   kernel_tap_count
    [of "\<lparr>inW = 12, inH = 12, kernel = 3, stride = 2, padding = 2, dilation = 2\<rparr>" 1 2 5 8]
  by (simp add: rfBounds_simps effKernel_def)

section \<open>Properties of the scan controller\<close>

subsection \<open>The selection stays inside the output grid\<close>


lemma last_cell:
  assumes "0 < w" and "0 < (h::int)"
  shows "(w * h - 1) div w = h - 1" "(w * h - 1) mod w = w - 1"
proof -
  have e: "w * h - 1 = (w - 1) + (h - 1) * w" by (simp add: algebra_simps)
  have w0: "w \<noteq> 0" using assms(1) by simp
  have "(w * h - 1) div w = ((w - 1) + (h - 1) * w) div w" by (simp only: e)
  also have "\<dots> = (h - 1) + (w - 1) div w" by (rule div_mult_self1 [OF w0])
  also have "(w - 1) div w = 0" using assms(1) by simp
  finally show "(w * h - 1) div w = h - 1" by simp
  have "(w * h - 1) mod w = ((w - 1) + (h - 1) * w) mod w" by (simp only: e)
  also have "\<dots> = (w - 1) mod w" by (rule mod_mult_self1)
  also have "\<dots> = w - 1"
  proof (rule mod_pos_pos_trivial)
    show "0 \<le> w - 1" "w - 1 < w" using assms(1) by simp_all
  qed
  finally show "(w * h - 1) mod w = w - 1" .
qed












subsection \<open>The scan cycle\<close>

lemma tick_timer:
  assumes "timer s = Some \<lparr>ix = i, tOutW = w, total = T\<rparr>" and "0 \<le> i" and "0 < w" and "0 < T"
  shows "timer (tick s) = Some \<lparr>ix = (i + 1) mod T, tOutW = w, total = T\<rparr>"
    and "selectedOut (tick s) = Some (i mod w, i div w)"
  using assms by (simp_all add: tick_def Let_def js_rem_nonneg floor_js_div)

lemma ticks_timer:
  assumes "timer s = Some \<lparr>ix = 0, tOutW = w, total = T\<rparr>" and "0 < w" and "0 < T"
  shows "timer ((tick ^^ k) s) = Some \<lparr>ix = int k mod T, tOutW = w, total = T\<rparr>"
proof (induction k)
  case 0
  with assms show ?case by simp
next
  case (Suc k)
  have "0 \<le> int k mod T" using assms(3) by simp
  from tick_timer(1) [OF Suc.IH this assms(2,3)]
  have "timer (tick ((tick ^^ k) s)) = Some \<lparr>ix = (int k mod T + 1) mod T, tOutW = w, total = T\<rparr>" .
  moreover have "(int k mod T + 1) mod T = int (Suc k) mod T"
    by (simp add: mod_simps add.commute)
  ultimately show ?case by simp
qed

lemma ticks_selected:
  assumes "timer s = Some \<lparr>ix = 0, tOutW = w, total = T\<rparr>" and "0 < w" and "0 < T"
  shows "selectedOut ((tick ^^ Suc k) s) = Some (int k mod T mod w, int k mod T div w)"
proof -
  have "0 \<le> int k mod T" using assms(3) by simp
  from tick_timer(2) [OF ticks_timer [OF assms, of k] this assms(2,3)]
  show ?thesis by simp
qed

lemma start_scan:
  assumes "0 < outW (prm s)" and "0 < outH (prm s)" and "\<not> animate s"
  shows "timer (step ToggleAnimate s)
           = Some \<lparr>ix = 0, tOutW = outW (prm s), total = outW (prm s) * outH (prm s)\<rparr>"
    and "selectedOut (step ToggleAnimate s) = Some (0, 0)"
  using assms by (simp_all add: animEffect_def Let_def)

text \<open>
  Claim C1, as the code has it. Starting a scan with positive output dimensions \<open>w\<close> and
  \<open>h\<close> resets the selection to \<open>(0, 0)\<close> and the index to 0. Each tick first selects the
  cell of the current index, \<open>x = index mod w\<close> and \<open>y = \<lfloor>index / w\<rfloor>\<close>, and then advances
  the index to \<open>(index + 1) mod (w * h)\<close>. So after \<open>k + 1\<close> ticks the selection is the cell
  of index \<open>k mod (w * h)\<close> in row-major order: the first tick selects \<open>(0, 0)\<close> again, after
  exactly \<open>w * h\<close> ticks the selection is the last cell \<open>(w - 1, h - 1)\<close>, and after exactly
  \<open>w * h + 1\<close> ticks it is \<open>(0, 0)\<close> again; the index is back at 0 after \<open>w * h\<close> ticks.
\<close>

theorem scan_cycle:
  assumes "0 < outW (prm s)" and "0 < outH (prm s)" and "\<not> animate s"
    and "w = outW (prm s)" and "h = outH (prm s)"
  shows "selectedOut (step ToggleAnimate s) = Some (0, 0) \<and>
         selectedOut ((tick ^^ Suc k) (step ToggleAnimate s))
           = Some (int k mod (w * h) mod w, int k mod (w * h) div w) \<and>
         map_option ix (timer ((tick ^^ k) (step ToggleAnimate s))) = Some (int k mod (w * h)) \<and>
         selectedOut ((tick ^^ 1) (step ToggleAnimate s)) = Some (0, 0) \<and>
         selectedOut ((tick ^^ nat (w * h)) (step ToggleAnimate s)) = Some (w - 1, h - 1) \<and>
         selectedOut ((tick ^^ Suc (nat (w * h))) (step ToggleAnimate s)) = Some (0, 0)"
proof -
  let ?s0 = "step ToggleAnimate s"
  have w: "0 < w" and h: "0 < h" using assms by simp_all
  have T: "0 < w * h" using w h by simp
  have t0: "timer ?s0 = Some \<lparr>ix = 0, tOutW = w, total = w * h\<rparr>"
    using start_scan(1) [OF assms(1-3)] assms(4,5) by simp
  note sel = ticks_selected [OF t0 w T]
  have a: "selectedOut ?s0 = Some (0, 0)" by (rule start_scan(2) [OF assms(1-3)])
  have b: "map_option ix (timer ((tick ^^ k) ?s0)) = Some (int k mod (w * h))"
    using ticks_timer [OF t0 w T, of k] by (simp del: step.simps)
  have c: "selectedOut ((tick ^^ 1) ?s0) = Some (0, 0)"
    using sel [of 0] by simp
  obtain n where n: "nat (w * h) = Suc n" using T by (cases "nat (w * h)") simp_all
  then have n': "int n = w * h - 1" using T by linarith
  have "int n mod (w * h) = w * h - 1"
    unfolding n' using T by (intro mod_pos_pos_trivial) simp_all
  then have d: "selectedOut ((tick ^^ nat (w * h)) ?s0) = Some (w - 1, h - 1)"
    using sel [of n] last_cell [OF w h] by (simp add: n)
  have "int (nat (w * h)) mod (w * h) = 0" using T by simp
  then have e: "selectedOut ((tick ^^ Suc (nat (w * h))) ?s0) = Some (0, 0)"
    using sel [of "nat (w * h)"] by simp
  from a sel [of k] b c d e show ?thesis by blast
qed

text \<open>The theorem for a 2 by 2 output, after 3, 4 and 5 ticks.\<close>

theorem scan_cycle_witness:
  "selectedOut ((tick ^^ 4) (step ToggleAnimate
      (run [SetParams \<lparr>inW = 4, inH = 4, kernel = 3, stride = 1, padding = 0, dilation = 1\<rparr>] initScan)))
     = Some (1, 1) \<and>
   selectedOut ((tick ^^ 5) (step ToggleAnimate
      (run [SetParams \<lparr>inW = 4, inH = 4, kernel = 3, stride = 1, padding = 0, dilation = 1\<rparr>] initScan)))
     = Some (0, 0) \<and>
   selectedOut ((tick ^^ 3) (step ToggleAnimate
      (run [SetParams \<lparr>inW = 4, inH = 4, kernel = 3, stride = 1, padding = 0, dilation = 1\<rparr>] initScan)))
     = Some (0, 1)"
proof -
  let ?P = "\<lparr>inW = 4, inH = 4, kernel = 3, stride = 1, padding = 0, dilation = 1\<rparr>"
  let ?s = "run [SetParams ?P] initScan"
  have o: "outW ?P = 2" "outH ?P = 2" by (simp_all add: outW_div outH_div effKernel_def)
  have i: "outW initParams = 12" "outH initParams = 12"
    by (simp_all add: outW_div outH_div effKernel_def initParams_def)
  have p: "prm ?s = ?P" "\<not> animate ?s"
    by (simp_all add: run_def initScan_def Let_def o i animEffect_def)
  have h: "0 < outW (prm ?s)" "0 < outH (prm ?s)" "2 = outW (prm ?s)" "2 = outH (prm ?s)"
    by (simp_all only: p o)
  from scan_cycle [OF h(1,2) p(2) h(3,4), of 2] show ?thesis
    by (simp del: step.simps funpow.simps)
qed

text \<open>
  Claim C1 as the specification states it, that the selection is back at \<open>(0, 0)\<close> after
  exactly \<open>w * h\<close> ticks, fails for a 2 by 2 output: after 4 ticks the selection is
  \<open>(1, 1)\<close>.
\<close>

theorem scan_cycle_counterexample:
  "selectedOut (run [SetParams \<lparr>inW = 4, inH = 4, kernel = 3, stride = 1, padding = 0, dilation = 1\<rparr>,
                     ToggleAnimate, Tick, Tick, Tick, Tick] initScan) = Some (1, 1) \<and>
   outW \<lparr>inW = 4, inH = 4, kernel = 3, stride = 1, padding = 0, dilation = 1\<rparr> *
     outH \<lparr>inW = 4, inH = 4, kernel = 3, stride = 1, padding = 0, dilation = 1\<rparr> = 4 \<and>
   selectedOut (run [SetParams \<lparr>inW = 4, inH = 4, kernel = 3, stride = 1, padding = 0, dilation = 1\<rparr>,
                     ToggleAnimate, Tick, Tick, Tick, Tick] initScan) \<noteq> Some (0, 0)"
proof -
  let ?P = "\<lparr>inW = 4, inH = 4, kernel = 3, stride = 1, padding = 0, dilation = 1\<rparr>"
  have o: "outW ?P = 2" "outH ?P = 2" by (simp_all add: outW_div outH_div effKernel_def)
  have i: "outW initParams = 12" "outH initParams = 12"
    by (simp_all add: outW_div outH_div effKernel_def initParams_def)
  show ?thesis
    by (simp add: run_def initScan_def Let_def o i animEffect_def tick_def clampSelected_def
        js_rem_def floor_js_div)
qed

section \<open>Properties of the convolution\<close>

lemma inputValue_shape:
  assumes "grid_shape P D"
  shows "inputValue P D y x = Inr (Some (sample P D y x))"
proof (cases "padding P \<le> y \<and> y < padding P + inH P \<and> padding P \<le> x \<and> x < padding P + inW P")
  case True
  then have r: "nat (y - padding P) < length D"
    using assms by (simp add: grid_shape_def nat_less_iff)
  then have "length (D ! nat (y - padding P)) = nat (inW P)"
    using assms by (simp add: grid_shape_def list_all_length)
  then have c: "nat (x - padding P) < length (D ! nat (y - padding P))"
    using True by (simp add: nat_less_iff)
  show ?thesis using True r c by (simp add: inputValue_def sample_def Let_def)
next
  case False
  then show ?thesis by (auto simp add: inputValue_def sample_def)
qed

lemma accumulate_inside:
  assumes "length W = 3" and "list_all (\<lambda>row. length row = 3) W" and "ky < 3" and "kx < 3"
  shows "accumulate W ky kx (Some v) (Some s) = Some (s + of_int v * W ! ky ! kx)"
  using assms by (simp add: accumulate_def list_all_length)

lemma accumulate_outside:
  assumes "length W = 3" and "list_all (\<lambda>row. length row = 3) W" and "3 \<le> ky \<or> 3 \<le> kx"
  shows "accumulate W ky kx v acc = acc"
  using assms by (auto simp add: accumulate_def list_all_length)

lemma tap_shape:
  assumes "grid_shape P D" and "length W = 3" and "list_all (\<lambda>row. length row = 3) W"
  shows "tap P W D r ky kx (Some s)
           = Inr (Some (s + (if ky < 3 \<and> kx < 3 then contribution P W D r ky kx else 0)))"
proof (cases "ky < 3 \<and> kx < 3")
  case True
  then show ?thesis
    using accumulate_inside [OF assms(2,3), of ky kx]
    by (simp add: tap_def Let_def inputValue_shape [OF assms(1)] contribution_def)
next
  case False
  then have "3 \<le> ky \<or> 3 \<le> kx" by auto
  from accumulate_outside [OF assms(2,3) this] False show ?thesis
    by (auto simp add: tap_def Let_def inputValue_shape [OF assms(1)])
qed

lemma foldE_add:
  assumes "\<And>x s. f x (Some s) = Inr (Some (s + c x))"
  shows "foldE f xs (Some s) = Inr (Some (s + sum_list (map c xs)))"
  by (induction xs arbitrary: s) (simp_all add: assms add.assoc)

lemma cellSum_shape:
  assumes "grid_shape P D" and "length W = 3" and "list_all (\<lambda>row. length row = 3) W"
  shows "cellSum P W D ox oy =
           Inr (Some (\<Sum>ky\<leftarrow>[0..<nat (kernel P)]. \<Sum>kx\<leftarrow>[0..<nat (kernel P)].
              if ky < 3 \<and> kx < 3 then contribution P W D (rfBounds P (int ox) (int oy)) ky kx
              else 0))"
proof -
  let ?r = "rfBounds P (int ox) (int oy)"
  let ?c = "\<lambda>ky kx. if ky < 3 \<and> kx < 3 then contribution P W D ?r ky kx else 0"
  have inner: "foldE (\<lambda>kx. tap P W D ?r ky kx) [0..<nat (kernel P)] (Some s)
      = Inr (Some (s + (\<Sum>kx\<leftarrow>[0..<nat (kernel P)]. ?c ky kx)))" for ky s
    by (rule foldE_add) (rule tap_shape [OF assms])
  have "foldE (\<lambda>ky. foldE (\<lambda>kx. tap P W D ?r ky kx) [0..<nat (kernel P)]) [0..<nat (kernel P)] (Some 0)
      = Inr (Some (0 + (\<Sum>ky\<leftarrow>[0..<nat (kernel P)]. \<Sum>kx\<leftarrow>[0..<nat (kernel P)]. ?c ky kx)))"
    by (rule foldE_add) (rule inner)
  then show ?thesis by (simp add: cellSum_def Let_def)
qed

lemma sum_first_three:
  assumes "3 \<le> n"
  shows "(\<Sum>k\<leftarrow>[0..<n]. if k < 3 then f k else (0::rat)) = (\<Sum>k<3. f k)"
proof -
  have "(\<Sum>k\<leftarrow>[0..<n]. if k < 3 then f k else 0) = (\<Sum>k\<in>{0..<n}. if k < 3 then f k else 0)"
    by (simp add: interv_sum_list_conv_sum_set_nat)
  also have "\<dots> = (\<Sum>k\<in>{..<3}. if k < 3 then f k else 0)"
    using assms by (intro sum.mono_neutral_right) auto
  also have "\<dots> = (\<Sum>k<3. f k)"
    by (intro sum.cong) simp_all
  finally show ?thesis .
qed

lemma cellSum_large_kernel:
  assumes "grid_shape P D" and "length W = 3" and "list_all (\<lambda>row. length row = 3) W"
    and "3 \<le> kernel P"
  shows "cellSum P W D ox oy =
           Inr (Some (\<Sum>ky<3. \<Sum>kx<3. contribution P W D (rfBounds P (int ox) (int oy)) ky kx))"
proof -
  let ?r = "rfBounds P (int ox) (int oy)"
  let ?c = "contribution P W D ?r"
  have n: "3 \<le> nat (kernel P)" using assms(4) by simp
  have row: "(\<Sum>kx\<leftarrow>[0..<nat (kernel P)]. if ky < 3 \<and> kx < 3 then ?c ky kx else 0)
      = (if ky < 3 then (\<Sum>kx<3. ?c ky kx) else 0)" for ky
    using sum_first_three [OF n, of "?c ky"] by simp
  have "(\<Sum>ky\<leftarrow>[0..<nat (kernel P)]. \<Sum>kx\<leftarrow>[0..<nat (kernel P)].
           if ky < 3 \<and> kx < 3 then ?c ky kx else 0)
      = (\<Sum>ky\<leftarrow>[0..<nat (kernel P)]. if ky < 3 then (\<Sum>kx<3. ?c ky kx) else 0)"
    by (simp only: row)
  also have "\<dots> = (\<Sum>ky<3. \<Sum>kx<3. ?c ky kx)"
    by (rule sum_first_three [OF n])
  finally show ?thesis by (simp only: cellSum_shape [OF assms(1-3)])
qed

lemma mapE_total:
  assumes "\<And>x. x \<in> set xs \<Longrightarrow> f x = Inr (g x)"
  shows "mapE f xs = Inr (map g xs)"
  using assms by (induction xs) simp_all

lemma computeConvolution_cells:
  assumes "\<And>ox oy. outputCell P W D ox oy = Inr (g ox oy)"
  shows "computeConvolution P W D
           = Inr (map (\<lambda>oy. map (\<lambda>ox. g ox oy) [0..<nat (outW P)]) [0..<nat (outH P)])"
  unfolding computeConvolution_def
  by (intro mapE_total) (simp add: assms)


lemma math_round_of_int: "math_round (of_int v) = v"
  by (simp add: math_round_def) linarith

lemma outputCell_large_kernel:
  assumes "grid_shape P D" and "length W = 3" and "list_all (\<lambda>row. length row = 3) W"
    and "3 \<le> kernel P"
  shows "outputCell P W D ox oy =
           Inr (Some (math_round
             (\<Sum>ky<3. \<Sum>kx<3. contribution P W D (rfBounds P (int ox) (int oy)) ky kx)))"
  by (simp add: outputCell_def cellSum_large_kernel [OF assms])

lemma contribution_kernel_update:
  "contribution (P\<lparr>kernel := k\<rparr>) W D (rfBounds (P\<lparr>kernel := k\<rparr>) ox oy) ky kx
     = contribution P W D (rfBounds P ox oy) ky kx"
  by (simp add: contribution_def rfBounds_simps sample_def)

text \<open>
  Claim C2. For every kernel size above 3, every input grid of the shape the component
  builds and every 3 by 3 weight matrix, the value of an output cell is the rounded sum of
  \<open>sample * kernelWeights[ky][kx]\<close> over the kernel indices \<open>ky < 3\<close> and \<open>kx < 3\<close> alone, the
  same value a kernel size of 3 gives; a tap with \<open>ky \<ge> 3\<close> or \<open>kx \<ge> 3\<close> leaves the sum as
  it is, and a tap inside the weight matrix adds its product. The receptive field that
  \<^verbatim>\<open>rfBounds\<close> reports still spans \<open>(kernelSize - 1) * dilation + 1\<close> cells on each axis.
\<close>

theorem large_kernel_ignores_outer_taps:
  assumes "3 < kernel P" and "grid_shape P D"
    and "length W = 3" and "list_all (\<lambda>row. length row = 3) W"
  shows "outputCell P W D ox oy =
           Inr (Some (math_round (\<Sum>ky<3. \<Sum>kx<3.
             of_int (sample P D (int oy * stride P + int ky * dilation P)
                                (int ox * stride P + int kx * dilation P)) * W ! ky ! kx))) \<and>
         outputCell P W D ox oy = outputCell (P\<lparr>kernel := 3\<rparr>) W D ox oy \<and>
         (3 \<le> ky \<or> 3 \<le> kx \<longrightarrow>
            tap P W D (rfBounds P (int ox) (int oy)) ky kx acc = Inr acc) \<and>
         (ky < 3 \<and> kx < 3 \<longrightarrow>
            tap P W D (rfBounds P (int ox) (int oy)) ky kx (Some s) =
              Inr (Some (s + of_int (sample P D (int oy * stride P + int ky * dilation P)
                                               (int ox * stride P + int kx * dilation P))
                             * W ! ky ! kx))) \<and>
         computeConvolution P W D =
           Inr (map (\<lambda>oy. map (\<lambda>ox. Some (math_round (\<Sum>ky<3. \<Sum>kx<3.
                  of_int (sample P D (int oy * stride P + int ky * dilation P)
                                     (int ox * stride P + int kx * dilation P)) * W ! ky ! kx)))
                  [0..<nat (outW P)]) [0..<nat (outH P)]) \<and>
         endX (rfBounds P (int ox) (int oy)) - startX (rfBounds P (int ox) (int oy)) + 1
           = (kernel P - 1) * dilation P + 1 \<and>
         endY (rfBounds P (int ox) (int oy)) - startY (rfBounds P (int ox) (int oy)) + 1
           = (kernel P - 1) * dilation P + 1"
proof -
  have k: "3 \<le> kernel P" using assms(1) by simp
  have c: "contribution P W D (rfBounds P (int ox) (int oy)) ky kx =
      of_int (sample P D (int oy * stride P + int ky * dilation P)
                         (int ox * stride P + int kx * dilation P)) * W ! ky ! kx" for ox oy ky kx
    by (simp add: contribution_def rfBounds_simps)
  have cell: "outputCell P W D ox oy =
      Inr (Some (math_round (\<Sum>ky<3. \<Sum>kx<3.
        of_int (sample P D (int oy * stride P + int ky * dilation P)
                           (int ox * stride P + int kx * dilation P)) * W ! ky ! kx)))" for ox oy
    using outputCell_large_kernel [OF assms(2-4) k, of ox oy] by (simp only: c)
  have g3: "grid_shape (P\<lparr>kernel := 3\<rparr>) D" using assms(2) by (simp add: grid_shape_def)
  have same: "outputCell P W D ox oy = outputCell (P\<lparr>kernel := 3\<rparr>) W D ox oy"
    using outputCell_large_kernel [OF assms(2-4) k, of ox oy]
      outputCell_large_kernel [OF g3 assms(3,4), of ox oy]
    by (simp add: contribution_kernel_update)
  have out: "tap P W D (rfBounds P (int ox) (int oy)) ky kx acc = Inr acc" if "3 \<le> ky \<or> 3 \<le> kx"
    using accumulate_outside [OF assms(3,4) that]
    by (simp add: tap_def Let_def inputValue_shape [OF assms(2)])
  have ins: "tap P W D (rfBounds P (int ox) (int oy)) ky kx (Some s) =
      Inr (Some (s + of_int (sample P D (int oy * stride P + int ky * dilation P)
                                       (int ox * stride P + int kx * dilation P)) * W ! ky ! kx))"
    if "ky < 3 \<and> kx < 3"
    using that tap_shape [OF assms(2-4), of "rfBounds P (int ox) (int oy)" ky kx s]
    by (simp add: c)
  have conv: "computeConvolution P W D =
      Inr (map (\<lambda>oy. map (\<lambda>ox. Some (math_round (\<Sum>ky<3. \<Sum>kx<3.
             of_int (sample P D (int oy * stride P + int ky * dilation P)
                                (int ox * stride P + int kx * dilation P)) * W ! ky ! kx)))
             [0..<nat (outW P)]) [0..<nat (outH P)])"
    by (rule computeConvolution_cells) (rule cell)
  have geo: "endX (rfBounds P (int ox) (int oy)) - startX (rfBounds P (int ox) (int oy)) + 1
        = (kernel P - 1) * dilation P + 1"
      "endY (rfBounds P (int ox) (int oy)) - startY (rfBounds P (int ox) (int oy)) + 1
        = (kernel P - 1) * dilation P + 1"
    by (simp_all add: rfBounds_simps effKernel_def)
  from cell [of ox oy] same out ins conv geo show ?thesis by blast
qed

text \<open>
  The theorem for the 5 by 5 kernel with padding 2 on a 4 by 4 grid and the sharpen
  weights, at output cell \<open>(1, 1)\<close>: the value is \<open>5 * 1 - 2 - 5 = -2\<close>, the tap
  \<open>(ky, kx) = (3, 1)\<close> leaves a sum of 3 unchanged, and the receptive field ends at column 5.
\<close>

theorem large_kernel_ignores_outer_taps_witness:
  "outputCell \<lparr>inW = 4, inH = 4, kernel = 5, stride = 1, padding = 2, dilation = 1\<rparr>
     (weights sharpen) [[1, 2, 3, 4], [5, 6, 7, 8], [9, 10, 11, 12], [13, 14, 15, 16]] 1 1
     = Inr (Some (- 2)) \<and>
   tap \<lparr>inW = 4, inH = 4, kernel = 5, stride = 1, padding = 2, dilation = 1\<rparr>
     (weights sharpen) [[1, 2, 3, 4], [5, 6, 7, 8], [9, 10, 11, 12], [13, 14, 15, 16]]
     (rfBounds \<lparr>inW = 4, inH = 4, kernel = 5, stride = 1, padding = 2, dilation = 1\<rparr> 1 1)
     3 1 (Some 3) = Inr (Some 3) \<and>
   endX (rfBounds \<lparr>inW = 4, inH = 4, kernel = 5, stride = 1, padding = 2, dilation = 1\<rparr> 1 1)
     = 5"
proof -
  let ?P = "\<lparr>inW = 4, inH = 4, kernel = 5, stride = 1, padding = 2, dilation = 1\<rparr>"
  let ?D = "[[1, 2, 3, 4], [5, 6, 7, 8], [9, 10, 11, 12], [13, 14, 15, 16 :: int]]"
  have g: "grid_shape ?P ?D" by (simp add: grid_shape_def)
  have w: "length (weights sharpen) = 3" "list_all (\<lambda>row. length row = 3) (weights sharpen)"
    by simp_all
  have three: "{..<3::nat} = {0, 1, 2}" by auto
  have k: "3 < kernel ?P" by simp
  note t = large_kernel_ignores_outer_taps [OF k g w, of 1 1 3 1 "Some 3" 0]
  have m: "math_round (- 2) = - 2" using math_round_of_int [of "- 2"] by simp
  have a: "outputCell ?P (weights sharpen) ?D 1 1 = Inr (Some (- 2))"
    using t [THEN conjunct1] by (simp add: three sample_def m)
  have b: "tap ?P (weights sharpen) ?D (rfBounds ?P 1 1) 3 1 (Some 3) = Inr (Some 3)"
    using t [THEN conjunct2, THEN conjunct2, THEN conjunct1] by simp
  have c: "endX (rfBounds ?P 1 1) = 5"
    using t [THEN conjunct2, THEN conjunct2, THEN conjunct2, THEN conjunct2, THEN conjunct2,
        THEN conjunct1]
    by (simp add: rfBounds_simps)
  from a b c show ?thesis by simp
qed

lemma identity_sum:
  "(\<Sum>ky<3. \<Sum>kx<3. contribution P (weights identity) D r ky kx)
     = of_int (sample P D (startY r + dilation P) (startX r + dilation P))"
proof -
  have three: "{..<3::nat} = {0, 1, 2}" by auto
  show ?thesis by (simp add: three contribution_def)
qed

lemma outputCell_identity:
  assumes "grid_shape P D" and "3 \<le> kernel P"
  shows "outputCell P (weights identity) D ox oy =
           Inr (Some (sample P D (int oy * stride P + dilation P) (int ox * stride P + dilation P)))"
proof -
  have w: "length (weights identity) = 3" "list_all (\<lambda>row. length row = 3) (weights identity)"
    by simp_all
  show ?thesis
    using outputCell_large_kernel [OF assms(1) w assms(2), of ox oy]
    by (simp only: identity_sum math_round_of_int rfBounds_simps)
qed

text \<open>
  Claim C4. For every input grid of the shape the component builds, the convolution with
  the identity weights, kernel size 3, stride 1, dilation 1 and padding of at least 1
  succeeds, and every output cell whose kernel center lies inside the unpadded input
  region is a cell of the output grid whose value is the input sample at the center.
\<close>

theorem identity_round_trip:
  assumes "kernel P = 3" and "stride P = 1" and "dilation P = 1" and "1 \<le> padding P"
    and "grid_shape P D"
    and "kernelCenter (rfBounds P (int ox) (int oy)) = (cx, cy)"
    and "padding P \<le> cx" and "cx < padding P + inW P"
    and "padding P \<le> cy" and "cy < padding P + inH P"
  shows "ox < nat (outW P) \<and> oy < nat (outH P) \<and>
         (\<exists>out. computeConvolution P (weights identity) D = Inr out \<and>
            out ! oy ! ox = Some (D ! nat (cy - padding P) ! nat (cx - padding P)))"
proof -
  have k: "3 \<le> kernel P" "odd (kernel P)" using assms(1) by simp_all
  have c: "cx = int ox + 1" "cy = int oy + 1"
    using kernelCenter_rfBounds [OF k(2), of "int ox" "int oy"] assms(1-3,6) by simp_all
  have w: "outW P = inW P + 2 * padding P - 2" and h: "outH P = inH P + 2 * padding P - 2"
    using assms(1-3) by (simp_all add: outW_div outH_div effKernel_def)
  have ox: "ox < nat (outW P)" using assms(4,8) c(1) w by linarith
  have oy: "oy < nat (outH P)" using assms(4,10) c(2) h by linarith
  let ?g = "\<lambda>ox oy. Some (sample P D (int oy * stride P + dilation P) (int ox * stride P + dilation P))"
  let ?out = "map (\<lambda>oy. map (\<lambda>ox. ?g ox oy) [0..<nat (outW P)]) [0..<nat (outH P)]"
  have conv: "computeConvolution P (weights identity) D = Inr ?out"
    by (rule computeConvolution_cells) (rule outputCell_identity [OF assms(5) k(1)])
  have "?out ! oy ! ox = ?g ox oy" using ox oy by simp
  also have "\<dots> = Some (sample P D cy cx)" using assms(2,3) c by simp
  also have "\<dots> = Some (D ! nat (cy - padding P) ! nat (cx - padding P))"
    using assms(7-10) by (simp add: sample_def)
  finally have "?out ! oy ! ox = Some (D ! nat (cy - padding P) ! nat (cx - padding P))" .
  with conv ox oy show ?thesis by blast
qed

text \<open>
  The theorem on a 4 by 4 grid with padding 1, at output cell \<open>(1, 2)\<close> with center
  \<open>(2, 3)\<close>; here the whole output, evaluated from the definitions, is the input.
\<close>

theorem identity_round_trip_witness:
  "computeConvolution \<lparr>inW = 4, inH = 4, kernel = 3, stride = 1, padding = 1, dilation = 1\<rparr>
      (weights identity) [[1, 2, 3, 4], [5, 6, 7, 8], [9, 10, 11, 12], [13, 14, 15, 16]]
     = Inr [[Some 1, Some 2, Some 3, Some 4], [Some 5, Some 6, Some 7, Some 8],
            [Some 9, Some 10, Some 11, Some 12], [Some 13, Some 14, Some 15, Some 16]] \<and>
   kernelCenter (rfBounds \<lparr>inW = 4, inH = 4, kernel = 3, stride = 1, padding = 1, dilation = 1\<rparr>
      (int 1) (int 2)) = (2, 3) \<and>
   (\<exists>out. computeConvolution \<lparr>inW = 4, inH = 4, kernel = 3, stride = 1, padding = 1, dilation = 1\<rparr>
      (weights identity) [[1, 2, 3, 4], [5, 6, 7, 8], [9, 10, 11, 12], [13, 14, 15, 16]] = Inr out \<and>
      out ! 2 ! 1 = Some 10)"
proof -
  let ?P = "\<lparr>inW = 4, inH = 4, kernel = 3, stride = 1, padding = 1, dilation = 1\<rparr>"
  let ?D = "[[1, 2, 3, 4], [5, 6, 7, 8], [9, 10, 11, 12], [13, 14, 15, 16 :: int]]"
  have g: "grid_shape ?P ?D" by (simp add: grid_shape_def)
  have kc: "kernelCenter (rfBounds ?P (int 1) (int 2)) = (2, 3)"
    by (simp add: kernelCenter_def rfBounds_simps effKernel_def floor_js_div)
  have a: "computeConvolution ?P (weights identity) ?D
     = Inr [[Some 1, Some 2, Some 3, Some 4], [Some 5, Some 6, Some 7, Some 8],
            [Some 9, Some 10, Some 11, Some 12], [Some 13, Some 14, Some 15, Some 16]]"
    by code_simp
  from identity_round_trip [of ?P ?D 1 2 2 3, OF _ _ _ _ g kc]
  have "\<exists>out. computeConvolution ?P (weights identity) ?D = Inr out \<and> out ! 2 ! 1 = Some 10"
    by simp
  with a kc show ?thesis by blast
qed

end
